theory Spec2Isabelle
  imports Complex_Main "HOL-Library.Multiset_Order" "HOL-Library.AList"
begin

section \<open>Influence engine: data model\<close>

text \<open>
  The embedding follows \<^verbatim>\<open>src/lib/influence-engine.ts\<close>. A JavaScript \<^verbatim>\<open>number\<close> that
  carries a weight or a score is read as a \<^typ>\<open>real\<close>: rounding, overflow and signed zero of
  IEEE doubles are abstracted, except in the decay function, whose arithmetic is binary64. A \<^verbatim>\<open>number\<close> that counts (a depth, a limit, a label) is an
  integer. Identifiers are strings; a \<^verbatim>\<open>Date\<close> is its \<^verbatim>\<open>getTime()\<close>, milliseconds as an
  integer. The optional \<^verbatim>\<open>context\<close> of an edge, which no function of the engine reads, is
  left out. Default arguments are passed explicitly.
\<close>

record InfluenceEdge =
  edge_id :: string
  sourceUserId :: string
  targetUserId :: string
  weight :: real
  createdAt :: int

record InfluencePath =
  path :: "string list"
  path_weight :: real
  path_depth :: nat

record PropagationResult =
  nodeId :: string
  directInfluence :: real
  propagatedInfluence :: real
  totalInfluence :: real
  paths :: "InfluencePath list"

text \<open>The entries of the traversal queue of \<^verbatim>\<open>propagateFromNode\<close>.\<close>

record queue_item =
  q_nodeId :: string
  q_weight :: real
  q_path :: "string list"
  q_depth :: nat

definition MAX_DEPTH :: int where
  "MAX_DEPTH = 3"

definition DECAY_FACTOR :: real where
  "DECAY_FACTOR = 6 / 10"

definition MIN_WEIGHT_THRESHOLD :: real where
  "MIN_WEIGHT_THRESHOLD = 1 / 100"

definition DEFAULT_DECAY_RATE :: real where
  "DEFAULT_DECAY_RATE = 5 / 100"

section \<open>Graph builder\<close>

type_synonym adjacency = "string \<rightharpoonup> InfluenceEdge list"

text \<open>\<^verbatim>\<open>adjacencyList.get(id) || []\<close>\<close>

definition neighbors_of :: "adjacency \<Rightarrow> string \<Rightarrow> InfluenceEdge list" where
  "neighbors_of adj n = (case adj n of None \<Rightarrow> [] | Some es \<Rightarrow> es)"

definition add_edge :: "InfluenceEdge \<Rightarrow> adjacency \<Rightarrow> adjacency" where
  "add_edge e adj = adj(sourceUserId e \<mapsto> neighbors_of adj (sourceUserId e) @ [e])"

definition buildAdjacencyList :: "InfluenceEdge list \<Rightarrow> adjacency" where
  "buildAdjacencyList edges = fold add_edge edges Map.empty"

section \<open>Propagation engine\<close>

text \<open>
  The inner \<^verbatim>\<open>for (const edge of neighbors)\<close> of \<^verbatim>\<open>propagateFromNode\<close>: the items it pushes,
  in order. An edge whose propagated weight is under the threshold is skipped.
\<close>

fun explore :: "queue_item \<Rightarrow> real \<Rightarrow> InfluenceEdge list \<Rightarrow> queue_item list" where
  "explore current decayFactor [] = []"
| "explore current decayFactor (edge # es) =
     (let propagatedWeight = q_weight current * (weight edge / 100) * decayFactor
      in if propagatedWeight < MIN_WEIGHT_THRESHOLD then explore current decayFactor es
         else \<lparr>q_nodeId = targetUserId edge, q_weight = propagatedWeight,
               q_path = q_path current @ [targetUserId edge],
               q_depth = q_depth current + 1\<rparr> # explore current decayFactor es)"

text \<open>The body of \<^verbatim>\<open>if (current.depth > 0)\<close>: record the path and add its weight.\<close>

definition record_contribution ::
  "queue_item \<Rightarrow> InfluencePath list \<times> real \<Rightarrow> InfluencePath list \<times> real" where
  "record_contribution current acc =
     (if q_depth current > 0
      then (fst acc @ [\<lparr>path = q_path current, path_weight = q_weight current,
                        path_depth = q_depth current\<rparr>],
            snd acc + q_weight current)
      else acc)"

text \<open>
  The \<^verbatim>\<open>while (queue.length > 0)\<close> loop. The accumulator is the pair of \<^verbatim>\<open>paths\<close> and
  \<^verbatim>\<open>propagatedInfluence\<close>. Nothing in the source bounds the loop syntactically, so the
  model is a partial function and \<open>None\<close> stands for a loop that never ends. The set
  \<^verbatim>\<open>visited\<close> of the source is written once and never read; it is left out.
\<close>

partial_function (option) propagate_loop ::
  "adjacency \<Rightarrow> int \<Rightarrow> real \<Rightarrow> queue_item list \<Rightarrow> InfluencePath list \<times> real
    \<Rightarrow> (InfluencePath list \<times> real) option" where
  "propagate_loop adj maxDepth decayFactor queue acc =
     (case queue of
        [] \<Rightarrow> Some acc
      | current # rest \<Rightarrow>
          if int (q_depth current) \<ge> maxDepth
          then propagate_loop adj maxDepth decayFactor rest (record_contribution current acc)
          else propagate_loop adj maxDepth decayFactor
                 (rest @ explore current decayFactor (neighbors_of adj (q_nodeId current)))
                 (record_contribution current acc))"

definition propagateFromNode ::
  "string \<Rightarrow> adjacency \<Rightarrow> int \<Rightarrow> real \<Rightarrow> PropagationResult option" where
  "propagateFromNode sourceId adj maxDepth decayFactor =
     (case propagate_loop adj maxDepth decayFactor
             [\<lparr>q_nodeId = sourceId, q_weight = 1, q_path = [sourceId], q_depth = 0\<rparr>] ([], 0) of
        None \<Rightarrow> None
      | Some acc \<Rightarrow>
          (let direct = foldl (\<lambda>sum edge. sum + weight edge) 0 (neighbors_of adj sourceId)
           in Some \<lparr>nodeId = sourceId, directInfluence = direct,
                    propagatedInfluence = snd acc,
                    totalInfluence = direct + snd acc,
                    paths = fst acc\<rparr>))"

text \<open>The \<^verbatim>\<open>for (const nodeId of nodeIds)\<close> loop of \<^verbatim>\<open>calculatePropagatedInfluence\<close>.\<close>

fun propagate_all ::
  "adjacency \<Rightarrow> int \<Rightarrow> real \<Rightarrow> string list \<Rightarrow> (string \<rightharpoonup> PropagationResult)
    \<Rightarrow> (string \<rightharpoonup> PropagationResult) option" where
  "propagate_all adj maxDepth decayFactor [] results = Some results"
| "propagate_all adj maxDepth decayFactor (n # ns) results =
     (case propagateFromNode n adj maxDepth decayFactor of
        None \<Rightarrow> None
      | Some r \<Rightarrow> propagate_all adj maxDepth decayFactor ns (results(n \<mapsto> r)))"

definition calculatePropagatedInfluence ::
  "InfluenceEdge list \<Rightarrow> string list \<Rightarrow> int \<Rightarrow> real \<Rightarrow> (string \<rightharpoonup> PropagationResult) option" where
  "calculatePropagatedInfluence edges nodeIds maxDepth decayFactor =
     propagate_all (buildAdjacencyList edges) maxDepth decayFactor nodeIds Map.empty"

section \<open>Propagation engine: termination and results\<close>

text \<open>The loop, one equation per shape of the queue.\<close>

lemma propagate_loop_Nil: "propagate_loop adj md df [] acc = Some acc"
  by (subst propagate_loop.simps) simp

lemma propagate_loop_Cons:
  "propagate_loop adj md df (c # rest) acc =
     (if int (q_depth c) \<ge> md
      then propagate_loop adj md df rest (record_contribution c acc)
      else propagate_loop adj md df (rest @ explore c df (neighbors_of adj (q_nodeId c)))
             (record_contribution c acc))"
  by (subst propagate_loop.simps) simp

definition remaining :: "int \<Rightarrow> queue_item \<Rightarrow> nat" where
  "remaining md c = nat (md - int (q_depth c))"

lemma explore_depth: "c' \<in> set (explore c df es) \<Longrightarrow> q_depth c' = q_depth c + 1"
  by (induction es) (auto simp: Let_def split: if_splits)

lemma explore_remaining:
  "int (q_depth c) < md \<Longrightarrow> c' \<in> set (explore c df es) \<Longrightarrow> remaining md c' < remaining md c"
  by (auto simp: remaining_def dest!: explore_depth)

lemma queue_measure_pop:
  "mset (map (remaining md) rest) < mset (map (remaining md) (c # rest))"
  by simp

lemma queue_measure_expand:
  assumes "int (q_depth c) < md"
  shows "mset (map (remaining md) (rest @ explore c df es)) < mset (map (remaining md) (c # rest))"
proof -
  let ?I = "mset (map (remaining md) rest)"
  let ?K = "mset (map (remaining md) (explore c df es))"
  let ?J = "{#remaining md c#}"
  have "\<forall>k\<in>#?K. \<exists>j\<in>#?J. k < j"
    using assms by (auto dest: explore_remaining)
  then have "multp (<) (?I + ?K) (?I + ?J)"
    by (intro one_step_implies_multp) auto
  then show ?thesis
    by (simp add: less_multiset_def)
qed

lemma propagate_loop_induct [case_names Nil Stop Expand]:
  assumes nil: "\<And>acc. P [] acc"
    and stop: "\<And>c rest acc. md \<le> int (q_depth c) \<Longrightarrow> P rest (record_contribution c acc)
                 \<Longrightarrow> P (c # rest) acc"
    and expand: "\<And>c rest acc. int (q_depth c) < md
                 \<Longrightarrow> P (rest @ explore c df (neighbors_of adj (q_nodeId c))) (record_contribution c acc)
                 \<Longrightarrow> P (c # rest) acc"
  shows "P queue acc"
proof -
  have "\<forall>acc. P queue acc"
  proof (induction "mset (map (remaining md) queue)" arbitrary: queue rule: less_induct)
    case less
    show ?case
    proof (cases queue)
      case Nil
      then show ?thesis by (simp add: nil)
    next
      case (Cons c rest)
      show ?thesis
      proof (cases "md \<le> int (q_depth c)")
        case True
        have "\<forall>acc. P rest acc"
          using less [of rest] queue_measure_pop [of md rest c] Cons by simp
        with True show ?thesis unfolding Cons by (blast intro: stop)
      next
        case False
        then have lt: "int (q_depth c) < md" by simp
        have "\<forall>acc. P (rest @ explore c df (neighbors_of adj (q_nodeId c))) acc"
          using less [of "rest @ explore c df (neighbors_of adj (q_nodeId c))"]
            queue_measure_expand [OF lt, of rest df] Cons by simp
        with lt show ?thesis unfolding Cons by (blast intro: expand)
      qed
    qed
  qed
  then show ?thesis by blast
qed

lemma propagate_loop_terminates: "\<exists>r. propagate_loop adj md df queue acc = Some r"
  by (induction queue acc rule: propagate_loop_induct [where md = md and df = df and adj = adj])
     (simp_all add: propagate_loop_Nil propagate_loop_Cons)


lemma record_contribution_depth:
  assumes "q_depth c = 0 \<or> int (q_depth c) \<le> md"
    and "\<forall>p\<in>set (fst acc). int (path_depth p) \<le> md"
  shows "\<forall>p\<in>set (fst (record_contribution c acc)). int (path_depth p) \<le> md"
  using assms by (auto simp: record_contribution_def)

lemma propagate_loop_depth:
  "\<forall>c\<in>set queue. q_depth c = 0 \<or> int (q_depth c) \<le> md
    \<Longrightarrow> \<forall>p\<in>set (fst acc). int (path_depth p) \<le> md
    \<Longrightarrow> propagate_loop adj md df queue acc = Some r
    \<Longrightarrow> \<forall>p\<in>set (fst r). int (path_depth p) \<le> md"
proof (induction queue acc rule: propagate_loop_induct [where md = md and df = df and adj = adj])
  case (Nil acc)
  then show ?case by (simp add: propagate_loop_Nil)
next
  case (Stop c rest acc)
  have "\<forall>p\<in>set (fst (record_contribution c acc)). int (path_depth p) \<le> md"
    using Stop.prems by (intro record_contribution_depth) simp_all
  then show ?case
    using Stop by (simp add: propagate_loop_Cons)
next
  case (Expand c rest acc)
  have acc': "\<forall>p\<in>set (fst (record_contribution c acc)). int (path_depth p) \<le> md"
    using Expand.prems by (intro record_contribution_depth) simp_all
  have "\<forall>c'\<in>set (explore c df (neighbors_of adj (q_nodeId c))). int (q_depth c') \<le> md"
    using Expand.hyps by (auto dest!: explore_depth)
  then have "\<forall>c'\<in>set (rest @ explore c df (neighbors_of adj (q_nodeId c))).
      q_depth c' = 0 \<or> int (q_depth c') \<le> md"
    using Expand.prems(1) by auto
  then show ?case
    using Expand acc' by (simp add: propagate_loop_Cons)
qed

lemma propagateFromNode_total:
  "\<exists>r. propagateFromNode n adj md df = Some r \<and> nodeId r = n
     \<and> (\<forall>p\<in>set (paths r). int (path_depth p) \<le> md)"
proof -
  let ?q = "[\<lparr>q_nodeId = n, q_weight = 1, q_path = [n], q_depth = 0\<rparr>]"
  obtain acc where acc: "propagate_loop adj md df ?q ([], 0) = Some acc"
    using propagate_loop_terminates by blast
  have "\<forall>p\<in>set (fst acc). int (path_depth p) \<le> md"
    by (rule propagate_loop_depth [OF _ _ acc]) simp_all
  then show ?thesis
    by (simp add: propagateFromNode_def acc Let_def)
qed

lemma propagate_all_results:
  "\<exists>res. propagate_all adj md df ns results = Some res
     \<and> (\<forall>n. res n = (if n \<in> set ns then propagateFromNode n adj md df else results n))"
proof (induction ns arbitrary: results)
  case Nil
  then show ?case by simp
next
  case (Cons m ns)
  obtain r where r: "propagateFromNode m adj md df = Some r"
    using propagateFromNode_total by blast
  from Cons [of "results(m \<mapsto> r)"] obtain res where
    res: "propagate_all adj md df ns (results(m \<mapsto> r)) = Some res"
      "\<forall>n. res n = (if n \<in> set ns then propagateFromNode n adj md df else (results(m \<mapsto> r)) n)"
    by blast
  show ?case
    using res r by auto
qed

lemma neighbors_of_fold_add_edge:
  "neighbors_of (fold add_edge edges adj) n
     = neighbors_of adj n @ filter (\<lambda>e. sourceUserId e = n) edges"
  by (induction edges arbitrary: adj) (auto simp: add_edge_def neighbors_of_def)

lemma neighbors_of_buildAdjacencyList:
  "neighbors_of (buildAdjacencyList edges) n = filter (\<lambda>e. sourceUserId e = n) edges"
  by (simp add: buildAdjacencyList_def neighbors_of_fold_add_edge) (simp add: neighbors_of_def)

lemma propagateFromNode_no_edges:
  assumes "neighbors_of adj n = []"
  shows "propagateFromNode n adj md df
     = Some \<lparr>nodeId = n, directInfluence = 0, propagatedInfluence = 0, totalInfluence = 0,
              paths = []\<rparr>"
  using assms
  by (simp add: propagateFromNode_def propagate_loop_Cons propagate_loop_Nil
        record_contribution_def)

text \<open>The scenario of the specification: \<open>A \<rightarrow> B\<close> with weight 80, \<open>B \<rightarrow> C\<close> with weight 50.\<close>

definition edgeAB :: InfluenceEdge where
  "edgeAB = \<lparr>edge_id = ''e1'', sourceUserId = ''A'', targetUserId = ''B'', weight = 80,
              createdAt = 0\<rparr>"

definition edgeBC :: InfluenceEdge where
  "edgeBC = \<lparr>edge_id = ''e2'', sourceUserId = ''B'', targetUserId = ''C'', weight = 50,
              createdAt = 0\<rparr>"

text \<open>A two-node cycle whose edges carry the full weight 100.\<close>

definition edgeAB_full :: InfluenceEdge where
  "edgeAB_full = \<lparr>edge_id = ''c1'', sourceUserId = ''A'', targetUserId = ''B'', weight = 100,
                   createdAt = 0\<rparr>"

definition edgeBA_full :: InfluenceEdge where
  "edgeBA_full = \<lparr>edge_id = ''c2'', sourceUserId = ''B'', targetUserId = ''A'', weight = 100,
                   createdAt = 0\<rparr>"

lemmas propagation_eval =
  calculatePropagatedInfluence_def propagateFromNode_def propagate_loop_Cons propagate_loop_Nil
  record_contribution_def buildAdjacencyList_def add_edge_def neighbors_of_def
  MIN_WEIGHT_THRESHOLD_def

text \<open>
  Claim C1. On the edges \<open>A \<rightarrow> B\<close> (80) and \<open>B \<rightarrow> C\<close> (50) with \<open>maxDepth = 3\<close> and
  \<open>decayFactor = 0.6\<close>, the result for \<open>A\<close> has direct influence 80, the path to \<open>B\<close> at
  depth 1 with weight \<open>1.0 * (80/100) * 0.6 = 0.48\<close>, the path to \<open>C\<close> at depth 2 with weight
  \<open>0.48 * (50/100) * 0.6 = 0.144\<close>, and total influence \<open>80 + 0.48 + 0.144 = 80.624\<close>. A
  single edge traversal carries the weight \<open>cw * (ew/100) * decayFactor\<close> (or is pruned
  under the threshold).
\<close>

theorem scenario_A_B_C:
  "(\<exists>results. calculatePropagatedInfluence [edgeAB, edgeBC] [''A'', ''B'', ''C''] 3 0.6
        = Some results
      \<and> results ''A'' = Some \<lparr>nodeId = ''A'', directInfluence = 80,
            propagatedInfluence = 0.48 + 0.144, totalInfluence = 80.624,
            paths = [\<lparr>path = [''A'', ''B''], path_weight = 0.48, path_depth = 1\<rparr>,
                     \<lparr>path = [''A'', ''B'', ''C''], path_weight = 0.144, path_depth = 2\<rparr>]\<rparr>)
   \<and> explore current decayFactor [edge]
       = (if q_weight current * (weight edge / 100) * decayFactor < 0.01 then []
          else [\<lparr>q_nodeId = targetUserId edge,
                  q_weight = q_weight current * (weight edge / 100) * decayFactor,
                  q_path = q_path current @ [targetUserId edge],
                  q_depth = q_depth current + 1\<rparr>])"
  by (simp add: propagation_eval edgeAB_def edgeBC_def)

text \<open>
  Claim C6, as the code has it. A node id without outgoing edges (in particular an id
  with no adjacency entry) is processed without error: direct, propagated and total
  influence are 0 and the path list is empty. The node itself, at depth 0, is dequeued but
  never recorded: the source records a path only under \<^verbatim>\<open>if (current.depth > 0)\<close>.
\<close>

theorem no_outgoing_edges_result:
  assumes "\<forall>e\<in>set edges. sourceUserId e \<noteq> n" and "n \<in> set nodeIds"
  shows "\<exists>results. calculatePropagatedInfluence edges nodeIds maxDepth decayFactor = Some results
     \<and> results n = Some \<lparr>nodeId = n, directInfluence = 0, propagatedInfluence = 0,
           totalInfluence = 0, paths = []\<rparr>"
proof -
  let ?adj = "buildAdjacencyList edges"
  have "filter (\<lambda>e. sourceUserId e = n) edges = []"
    using assms(1) by (simp add: filter_empty_conv)
  then have "neighbors_of ?adj n = []"
    by (simp add: neighbors_of_buildAdjacencyList)
  then have n: "propagateFromNode n ?adj maxDepth decayFactor
      = Some \<lparr>nodeId = n, directInfluence = 0, propagatedInfluence = 0, totalInfluence = 0,
               paths = []\<rparr>"
    by (rule propagateFromNode_no_edges)
  obtain res where "propagate_all ?adj maxDepth decayFactor nodeIds Map.empty = Some res"
    and "\<forall>m. res m = (if m \<in> set nodeIds then propagateFromNode m ?adj maxDepth decayFactor
                       else Map.empty m)"
    using propagate_all_results by blast
  then show ?thesis
    using assms(2) n by (simp add: calculatePropagatedInfluence_def)
qed

theorem no_outgoing_edges_result_witness:
  "\<exists>results. calculatePropagatedInfluence [edgeAB, edgeBC] [''A'', ''B'', ''C''] 3 0.6
       = Some results
     \<and> results ''C'' = Some \<lparr>nodeId = ''C'', directInfluence = 0, propagatedInfluence = 0,
           totalInfluence = 0, paths = []\<rparr>"
  using no_outgoing_edges_result [of "[edgeAB, edgeBC]" "''C''" "[''A'', ''B'', ''C'']" 3 "0.6"]
  by (simp add: edgeAB_def edgeBC_def)

text \<open>
  The claim as the specification words it (a one-element path list holding the node itself
  at depth 0) fails: with no edges at all, the path list of \<open>X\<close> is empty.
\<close>

theorem no_outgoing_edges_counterexample:
  "\<not> (\<exists>results r. calculatePropagatedInfluence [] [''X''] 3 0.6 = Some results
        \<and> results ''X'' = Some r \<and> length (paths r) = 1)"
  by (simp add: propagation_eval)

text \<open>
  Claim C8. For every edge list, node list, \<open>maxDepth\<close> and \<open>decayFactor\<close> the traversal
  ends for every node (the call returns a result map defined exactly on the node list),
  and no recorded path contribution has a depth above \<open>maxDepth\<close>. No bound on the decay
  factor or on the weights is needed, and cycles are allowed: the depth alone bounds the
  traversal.
\<close>

theorem propagation_terminates_within_maxDepth:
  "\<exists>results. calculatePropagatedInfluence edges nodeIds maxDepth decayFactor = Some results
     \<and> dom results = set nodeIds
     \<and> (\<forall>n\<in>set nodeIds. \<exists>r. results n = Some r
           \<and> (\<forall>p\<in>set (paths r). int (path_depth p) \<le> maxDepth))"
proof -
  let ?adj = "buildAdjacencyList edges"
  obtain res where res: "propagate_all ?adj maxDepth decayFactor nodeIds Map.empty = Some res"
    and eq: "\<forall>m. res m = (if m \<in> set nodeIds then propagateFromNode m ?adj maxDepth decayFactor
                           else Map.empty m)"
    using propagate_all_results by blast
  have "dom res = set nodeIds"
  proof (rule set_eqI)
    fix m
    show "m \<in> dom res \<longleftrightarrow> m \<in> set nodeIds"
      using eq propagateFromNode_total [of m ?adj maxDepth decayFactor] by (auto simp: dom_def)
  qed
  moreover have "\<forall>n\<in>set nodeIds. \<exists>r. res n = Some r
      \<and> (\<forall>p\<in>set (paths r). int (path_depth p) \<le> maxDepth)"
  proof
    fix n
    assume n: "n \<in> set nodeIds"
    obtain r where "propagateFromNode n ?adj maxDepth decayFactor = Some r"
      and "\<forall>p\<in>set (paths r). int (path_depth p) \<le> maxDepth"
      using propagateFromNode_total [of n ?adj maxDepth decayFactor] by blast
    then show "\<exists>r. res n = Some r \<and> (\<forall>p\<in>set (paths r). int (path_depth p) \<le> maxDepth)"
      using eq n by simp
  qed
  ultimately show ?thesis
    using res by (simp add: calculatePropagatedInfluence_def)
qed

text \<open>
  On the cycle \<open>A \<rightarrow> B \<rightarrow> A\<close> with full weights and decay factor 1 nothing is ever pruned;
  with \<open>maxDepth = 2\<close> the traversal from \<open>A\<close> still ends, after coming back to \<open>A\<close> at
  depth 2.
\<close>

theorem propagation_terminates_within_maxDepth_witness:
  "\<exists>results. calculatePropagatedInfluence [edgeAB_full, edgeBA_full] [''A''] 2 1 = Some results
     \<and> dom results = {''A''}
     \<and> (\<exists>r. results ''A'' = Some r
          \<and> map path (paths r) = [[''A'', ''B''], [''A'', ''B'', ''A'']]
          \<and> map path_depth (paths r) = [1, 2]
          \<and> list_all (\<lambda>p. int (path_depth p) \<le> 2) (paths r))"
  using propagation_terminates_within_maxDepth [of "[edgeAB_full, edgeBA_full]" "[''A'']" 2 1]
  by (simp add: propagation_eval edgeAB_full_def edgeBA_full_def)

section \<open>Decay function\<close>

text \<open>
  The decay function is modelled in binary64, the arithmetic of a JavaScript \<^verbatim>\<open>number\<close>:
  every operation returns the exact result rounded to the nearest double, ties to even,
  with gradual underflow and with overflow to an infinity. A finite double is a real that
  rounding leaves unchanged (\<open>is_double\<close>); the arguments of the function are doubles. The
  sign of zero is not modelled. ECMAScript leaves the precision of \<^verbatim>\<open>Math.pow\<close> to the
  implementation; the model takes the correctly rounded power, and follows
  \<^verbatim>\<open>Number::exponentiate\<close> in the special cases: exponent 0 gives 1, a zero base gives 0 or
  \<open>+Infinity\<close>, a negative base with a fractional exponent gives \<open>NaN\<close>. The general
  statements below need of the power only that it stays within \<open>[0, 1]\<close> for a base in
  \<open>[0, 1]\<close> and an exponent that is not negative; the values at single inputs are powers of
  two or lie beyond the range of the doubles.
\<close>

datatype js_number = Finite real | PosInfinity | NegInfinity | NaN

definition round_even :: "real \<Rightarrow> int" where
  "round_even q =
     (let f = \<lfloor>q\<rfloor>
      in if q - of_int f < 1 / 2 then f
         else if 1 / 2 < q - of_int f then f + 1
         else if even f then f else f + 1)"

definition binade :: "real \<Rightarrow> int" where
  "binade x = max \<lfloor>log 2 \<bar>x\<bar>\<rfloor> (- 1022)"

definition ulp :: "real \<Rightarrow> real" where
  "ulp x = 2 powr (of_int (binade x) - 52)"

definition fl64 :: "real \<Rightarrow> real" where
  "fl64 x = (if x = 0 then 0 else of_int (round_even (x / ulp x)) * ulp x)"

definition overflow_threshold :: real where
  "overflow_threshold = 2 powr 1024"

definition round64 :: "real \<Rightarrow> js_number" where
  "round64 x =
     (if overflow_threshold \<le> \<bar>fl64 x\<bar> then (if 0 < x then PosInfinity else NegInfinity)
      else Finite (fl64 x))"

definition is_double :: "real \<Rightarrow> bool" where
  "is_double x = (fl64 x = x \<and> \<bar>x\<bar> < overflow_threshold)"

definition is_integral :: "real \<Rightarrow> bool" where
  "is_integral y = (of_int \<lfloor>y\<rfloor> = y)"

definition math_pow :: "real \<Rightarrow> real \<Rightarrow> js_number" where
  "math_pow b e =
     (if e = 0 then Finite 1
      else if 0 < b then round64 (b powr e)
      else if b = 0 then (if 0 < e then Finite 0 else PosInfinity)
      else if is_integral e
           then round64 (if even \<lfloor>e\<rfloor> then \<bar>b\<bar> powr e else - (\<bar>b\<bar> powr e))
           else NaN)"

fun js_times :: "real \<Rightarrow> js_number \<Rightarrow> js_number" where
  "js_times w (Finite x) = round64 (w * x)"
| "js_times w PosInfinity = (if 0 < w then PosInfinity else if w < 0 then NegInfinity else NaN)"
| "js_times w NegInfinity = (if 0 < w then NegInfinity else if w < 0 then PosInfinity else NaN)"
| "js_times w NaN = NaN"

definition daysElapsed :: "int \<Rightarrow> int \<Rightarrow> real" where
  "daysElapsed now created = fl64 (fl64 (real_of_int (now - created)) / (1000 * 60 * 60 * 24))"

definition calculateDecayedWeight :: "real \<Rightarrow> int \<Rightarrow> real \<Rightarrow> int \<Rightarrow> js_number" where
  "calculateDecayedWeight originalWeight created decayRate now =
     js_times originalWeight (math_pow (fl64 (1 - decayRate)) (daysElapsed now created))"

subsection \<open>Rounding to binary64\<close>

lemma round_even_of_int: "round_even (of_int m) = m"
  by (simp add: round_even_def)


lemma round_even_ge: "of_int m \<le> q \<Longrightarrow> m \<le> round_even q"
proof -
  assume "of_int m \<le> q"
  then have "m \<le> \<lfloor>q\<rfloor>" by (simp add: le_floor_iff)
  then show ?thesis by (simp add: round_even_def Let_def)
qed

lemma ulp_pos: "0 < ulp x"
  by (simp add: ulp_def)

lemma fl64_zero: "fl64 0 = 0"
  by (simp add: fl64_def)



lemma two_powr_int: "0 \<le> z \<Longrightarrow> (2::real) powr of_int z = 2 ^ nat z"
  using powr_realpow [of 2 "nat z"] by simp




lemma two_powr_floor_log_le: "0 < x \<Longrightarrow> 2 powr of_int \<lfloor>log 2 x\<rfloor> \<le> x"
proof -
  assume x: "0 < x"
  have "2 powr of_int \<lfloor>log 2 x\<rfloor> \<le> 2 powr log 2 x"
    by (intro powr_mono) simp_all
  then show ?thesis using x by simp
qed

lemma binade_normal:
  assumes "2 powr (- 1022) \<le> x"
  shows "binade x = \<lfloor>log 2 x\<rfloor>"
proof -
  have x: "0 < x"
    using assms by (rule less_le_trans [rotated]) simp
  have "log 2 (2 powr (- 1022)) \<le> log 2 x"
    using assms x by (subst log_le_cancel_iff) simp_all
  then have "- 1022 \<le> log 2 x" by simp
  then have "- 1022 \<le> \<lfloor>log 2 x\<rfloor>" by (simp add: le_floor_iff)
  then show ?thesis using x by (simp add: binade_def)
qed

lemma fl64_ge_binade:
  assumes "2 powr (- 1022) \<le> x"
  shows "2 powr of_int \<lfloor>log 2 x\<rfloor> \<le> fl64 x"
proof -
  have x: "0 < x"
    using assms by (rule less_le_trans [rotated]) simp
  let ?e = "\<lfloor>log 2 x\<rfloor>"
  have u: "ulp x = 2 powr (of_int ?e - 52)"
    by (simp add: ulp_def binade_normal [OF assms])
  have "2 powr of_int ?e = (2::real) powr (52 + (of_int ?e - 52))"
    by simp
  also have "\<dots> = 2 powr 52 * 2 powr (of_int ?e - 52)"
    by (rule powr_add)
  finally have split: "2 powr of_int ?e = 2 powr 52 * ulp x"
    by (simp only: u)
  have "2 powr 52 * ulp x \<le> x"
    using two_powr_floor_log_le [OF x] split by simp
  then have "2 powr 52 \<le> x / ulp x"
    using ulp_pos [of x] by (simp add: pos_le_divide_eq)
  moreover have "(2::real) powr 52 = of_int (2 ^ 52)"
    by simp
  ultimately have "of_int (2 ^ 52) \<le> x / ulp x"
    by simp
  then have "2 ^ 52 \<le> round_even (x / ulp x)"
    by (rule round_even_ge)
  then have "of_int (2 ^ 52) * ulp x \<le> of_int (round_even (x / ulp x)) * ulp x"
    using ulp_pos [of x] by (simp only: mult_le_cancel_right of_int_le_iff) simp
  then show ?thesis
    using x split by (simp add: fl64_def)
qed

lemma fl64_ge_one: "1 \<le> x \<Longrightarrow> 1 \<le> fl64 x"
proof -
  assume x: "1 \<le> x"
  have small: "(2::real) powr (- 1022) \<le> 1"
    using powr_mono [of "- 1022" 0 "2::real"] by simp
  have "0 \<le> log 2 x" using x by simp
  then have "0 \<le> \<lfloor>log 2 x\<rfloor>" by simp
  then have "(2::real) powr 0 \<le> 2 powr of_int \<lfloor>log 2 x\<rfloor>"
    by (intro powr_mono) simp_all
  moreover have "2 powr of_int \<lfloor>log 2 x\<rfloor> \<le> fl64 x"
    using x small by (intro fl64_ge_binade) simp
  ultimately show ?thesis by simp
qed

lemma fl64_pos: "2 powr (- 1022) \<le> x \<Longrightarrow> 0 < fl64 x"
proof -
  assume "2 powr (- 1022) \<le> x"
  then have "2 powr of_int \<lfloor>log 2 x\<rfloor> \<le> fl64 x"
    by (rule fl64_ge_binade)
  moreover have "(0::real) < 2 powr of_int \<lfloor>log 2 x\<rfloor>"
    by simp
  ultimately show ?thesis by (rule less_le_trans [rotated])
qed


lemma fl64_on_grid:
  assumes "x \<noteq> 0" and "x / ulp x = of_int k"
  shows "fl64 x = x"
proof -
  have "of_int (round_even (x / ulp x)) * ulp x = (x / ulp x) * ulp x"
    by (simp only: assms(2) round_even_of_int)
  then show ?thesis
    using assms(1) ulp_pos [of x] by (simp add: fl64_def)
qed

lemma fl64_scaled:
  assumes "n \<noteq> 0" and "\<bar>n\<bar> < 2 ^ 53" and "- 1022 \<le> z"
  shows "fl64 (of_int n * 2 powr of_int z) = of_int n * 2 powr of_int z"
proof -
  let ?a = "\<bar>of_int n :: real\<bar>"
  let ?x = "of_int n * 2 powr of_int z :: real"
  let ?m = "\<lfloor>log 2 ?a\<rfloor>"
  have "1 \<le> \<bar>n\<bar>" using assms(1) by simp
  then have a1: "1 \<le> ?a" by (simp flip: of_int_abs)
  have "of_int \<bar>n\<bar> < (of_int (2 ^ 53) :: real)"
    using assms(2) by (simp only: of_int_less_iff)
  then have a2: "?a < 2 ^ 53" by simp
  have "0 \<le> log 2 ?a" using a1 by simp
  then have m0: "0 \<le> ?m" by simp
  have "log 2 ?a < 53"
    using a1 a2 by (simp add: log_less_iff)
  then have "?m < 53" by (simp add: floor_less_iff)
  then have m52: "?m \<le> 52" by simp
  have x0: "?x \<noteq> 0" using assms(1) by simp
  have absx: "\<bar>?x\<bar> = ?a * 2 powr of_int z"
    by (simp add: abs_mult)
  have "log 2 \<bar>?x\<bar> = log 2 ?a + of_int z"
    unfolding absx using a1 assms(1) by (simp add: log_mult)
  then have "\<lfloor>log 2 \<bar>?x\<bar>\<rfloor> = ?m + z"
    by simp
  moreover have "- 1022 \<le> ?m + z"
    using m0 assms(3) by linarith
  ultimately have b: "binade ?x = ?m + z"
    unfolding binade_def by (simp only: max_def) simp
  have u: "ulp ?x = 2 powr (of_int z - of_int (52 - ?m))"
    by (simp add: ulp_def b algebra_simps)
  have "?x / ulp ?x = of_int n * (2 powr of_int z / 2 powr (of_int z - of_int (52 - ?m)))"
    unfolding u by simp
  also have "2 powr of_int z / 2 powr (of_int z - of_int (52 - ?m)) = (2::real) powr of_int (52 - ?m)"
    by (simp add: powr_diff [symmetric])
  also have "\<dots> = 2 ^ nat (52 - ?m)"
    using m52 by (intro two_powr_int) simp
  finally have "?x / ulp ?x = of_int (n * 2 ^ nat (52 - ?m))"
    by simp
  with x0 show ?thesis
    by (rule fl64_on_grid)
qed

lemma fl64_of_int: "\<bar>n\<bar> < 2 ^ 53 \<Longrightarrow> fl64 (of_int n) = of_int n"
proof (cases "n = 0")
  case True
  then show ?thesis by (simp add: fl64_def)
next
  case False
  assume "\<bar>n\<bar> < 2 ^ 53"
  with False show ?thesis
    using fl64_scaled [of n 0] by simp
qed

lemma is_double_of_int: "\<bar>n\<bar> < 2 ^ 53 \<Longrightarrow> is_double (of_int n)"
proof -
  assume n: "\<bar>n\<bar> < 2 ^ 53"
  then have "of_int \<bar>n\<bar> < (of_int (2 ^ 53) :: real)"
    by (simp only: of_int_less_iff)
  then have "\<bar>of_int n :: real\<bar> < 2 ^ 53" by simp
  also have "(2::real) ^ 53 < overflow_threshold"
    unfolding overflow_threshold_def using powr_less_mono [of 53 1024 "2::real"] by simp
  finally show ?thesis
    using n by (simp add: is_double_def fl64_of_int)
qed


lemma round64_double: "is_double x \<Longrightarrow> round64 x = Finite x"
  by (simp add: is_double_def round64_def)




lemma fl64_numeral: "(numeral k :: int) < 2 ^ 53 \<Longrightarrow> fl64 (numeral k) = numeral k"
  using fl64_of_int [of "numeral k"] by simp

lemma fl64_neg_numeral: "(numeral k :: int) < 2 ^ 53 \<Longrightarrow> fl64 (- numeral k) = - numeral k"
  using fl64_of_int [of "- numeral k"] by simp

lemma fl64_one: "fl64 1 = 1"
  using fl64_of_int [of 1] by simp

lemma fl64_neg_one: "fl64 (- 1) = - 1"
  using fl64_of_int [of "- 1"] by simp

lemma fl64_half: "fl64 (1 / 2) = 1 / 2"
  using fl64_scaled [of 1 "- 1"] by (simp add: powr_minus)

lemma round64_numeral: "(numeral k :: int) < 2 ^ 53 \<Longrightarrow> round64 (numeral k) = Finite (numeral k)"
  using is_double_of_int [of "numeral k"] by (simp add: round64_double)

lemma round64_zero: "round64 0 = Finite 0"
  using is_double_of_int [of 0] by (simp add: round64_double)

lemma round64_one: "round64 1 = Finite 1"
  using is_double_of_int [of 1] by (simp add: round64_double)

lemma round64_quarter: "round64 (1 / 4) = Finite (1 / 4)"
proof -
  have "fl64 (1 / 4) = 1 / 4"
    using fl64_scaled [of 1 "- 2"] by (simp add: powr_minus)
  moreover have "(1 / 4 :: real) < overflow_threshold"
    unfolding overflow_threshold_def using powr_mono [of 0 1024 "2::real"] by simp
  ultimately show ?thesis by (simp add: round64_def)
qed


lemma round64_overflow:
  assumes "1024 \<le> z"
  shows "round64 (2 powr of_int z) = PosInfinity"
proof -
  have "fl64 (2 powr of_int z) = 2 powr of_int z"
    using fl64_scaled [of 1 z] assms by simp
  moreover have "overflow_threshold \<le> 2 powr of_int z"
    unfolding overflow_threshold_def using assms by (intro powr_mono) simp_all
  ultimately show ?thesis by (simp add: round64_def)
qed

lemma fl64_near_one:
  assumes "1 \<le> x" and "x < 1 + 2 powr (- 53)"
  shows "fl64 x = 1"
proof -
  have x0: "0 < x" using assms(1) by simp
  have "(2::real) powr (- 53) \<le> 2 powr 0" by (intro powr_mono) simp_all
  then have x2: "x < 2" using assms(2) by simp
  have "(2::real) powr (- 1022) \<le> 2 powr 0" by (intro powr_mono) simp_all
  then have normal: "2 powr (- 1022) \<le> x" using assms(1) by simp
  have "0 \<le> log 2 x" using assms(1) by simp
  moreover have "log 2 x < 1" using x0 x2 by (simp add: log_less_iff)
  ultimately have "\<lfloor>log 2 x\<rfloor> = 0" by (simp add: floor_eq_iff)
  then have u: "ulp x = 2 powr (- 52)"
    by (simp add: ulp_def binade_normal [OF normal])
  have p52: "(2::real) powr (- 52) * 2 ^ 52 = 1"
    by (simp add: powr_minus)
  have p53: "(2::real) powr (- 53) * 2 ^ 52 = 1 / 2"
    by (simp add: powr_minus)
  have q: "x / ulp x = x * 2 ^ 52"
    unfolding u by (simp add: powr_minus field_simps)
  have lo: "of_int (2 ^ 52) \<le> x * 2 ^ 52"
    using assms(1) by simp
  have "x * 2 ^ 52 < (1 + 2 powr (- 53)) * 2 ^ 52"
    using assms(2) by simp
  also have "\<dots> = 2 ^ 52 + 1 / 2"
    using p53 by (simp add: algebra_simps)
  finally have hi: "x * 2 ^ 52 < 2 ^ 52 + 1 / 2" .
  have fl: "\<lfloor>x * 2 ^ 52\<rfloor> = 2 ^ 52"
    using lo hi by (simp only: floor_eq_iff) simp
  have "round_even (x * 2 ^ 52) = 2 ^ 52"
    unfolding round_even_def Let_def fl using hi by simp
  then have "fl64 x = of_int (2 ^ 52) * 2 powr (- 52)"
    using x0 by (simp add: fl64_def q) (simp add: u)
  then show ?thesis using p52 by (simp add: mult.commute)
qed

subsection \<open>The decayed weight\<close>



lemma daysElapsed_same: "daysElapsed t t = 0"
  by (simp add: daysElapsed_def fl64_zero)


lemma daysElapsed_pos:
  assumes "t < now"
  shows "0 < daysElapsed now t"
proof -
  have "1 \<le> real_of_int (now - t)" using assms by simp
  then have "1 \<le> fl64 (real_of_int (now - t))" by (rule fl64_ge_one)
  then have "1 / 86400000 \<le> fl64 (real_of_int (now - t)) / 86400000"
    by (simp add: divide_right_mono)
  moreover have "(2::real) powr (- 1022) \<le> 1 / 86400000"
  proof -
    have "(2::real) powr (- 1022) \<le> 2 powr (- 27)"
      by (intro powr_mono) simp_all
    also have "(2::real) powr (- 27) \<le> 1 / 86400000"
      by (simp add: powr_minus)
    finally show ?thesis .
  qed
  ultimately have "2 powr (- 1022) \<le> fl64 (real_of_int (now - t)) / 86400000"
    by simp
  then have "0 < fl64 (fl64 (real_of_int (now - t)) / 86400000)"
    by (rule fl64_pos)
  then show ?thesis by (simp add: daysElapsed_def)
qed

lemma calculateDecayedWeight_same:
  "is_double w \<Longrightarrow> calculateDecayedWeight w t rate t = Finite w"
  by (simp add: calculateDecayedWeight_def daysElapsed_same math_pow_def round64_double)

lemma calculateDecayedWeight_rate_one:
  assumes "t < now"
  shows "calculateDecayedWeight w t 1 now = Finite 0"
proof -
  have "0 < daysElapsed now t" using assms by (rule daysElapsed_pos)
  then have "math_pow 0 (daysElapsed now t) = Finite 0"
    by (simp add: math_pow_def)
  then show ?thesis
    by (simp add: calculateDecayedWeight_def fl64_zero round64_def overflow_threshold_def)
qed




lemma math_pow_two_overflow: "math_pow 2 2000 = PosInfinity"
proof -
  have "round64 (2 powr of_int 2000) = PosInfinity" by (rule round64_overflow) simp
  then have "round64 (2 powr 2000) = PosInfinity" by (simp only: of_int_numeral)
  then show ?thesis by (simp only: math_pow_def) simp
qed

lemmas decay_eval = calculateDecayedWeight_def daysElapsed_def math_pow_def
  fl64_numeral fl64_neg_numeral fl64_one fl64_neg_one fl64_half fl64_zero
  round64_numeral round64_zero round64_one round64_quarter





lemma decay_rate_minus_one: "calculateDecayedWeight 100 0 (-1) 86400000 = Finite 200"
  by (simp add: decay_eval)

lemma decay_rate_two: "calculateDecayedWeight 100 0 2 (2 * 86400000) = Finite 100"
  by (simp add: decay_eval is_integral_def)

lemma decay_rate_one: "calculateDecayedWeight 100 0 1 86400000 = Finite 0"
  by (simp add: decay_eval)

lemma decay_rate_two_half_day: "calculateDecayedWeight 100 0 2 43200000 = NaN"
  by (simp add: decay_eval is_integral_def)

lemma decay_rate_minus_one_overflow:
  "calculateDecayedWeight 100 0 (-1) (2000 * 86400000) = PosInfinity"
  by (simp add: calculateDecayedWeight_def daysElapsed_def fl64_numeral math_pow_two_overflow)

lemma decay_rate_tiny_negative:
  "calculateDecayedWeight 100 0 (- (1 / 2 ^ 60)) 86400000 = Finite 100"
proof -
  have "(1 / 2 ^ 60 :: real) < 2 powr (- 53)"
    by (simp add: powr_minus)
  then have "fl64 (1 - (- (1 / 2 ^ 60))) = 1"
    by (intro fl64_near_one) simp_all
  then show ?thesis
    by (simp add: calculateDecayedWeight_def daysElapsed_def fl64_numeral fl64_one math_pow_def
          round64_one round64_numeral)
qed

lemma is_double_100: "is_double 100"
  using is_double_of_int [of 100] by simp




text \<open>
  Claim C9, as the code has it. The function checks nothing and has no error path: for
  every rate, inside or outside \<open>[0,1)\<close>, it returns the number the same formula gives in
  binary64. At zero elapsed time that is \<open>w\<close> for every rate; at rate 1 it is 0 after any
  positive elapsed time. For weight 100: rate \<open>-1\<close> gives 200 after one day and \<open>Infinity\<close>
  after 2000 days, rate 2 gives 100 after two days and \<open>NaN\<close> after half a day, and the
  rate \<open>-2\<^sup>-\<^sup>6\<^sup>0\<close> leaves the weight unchanged, since \<open>1 - rate\<close> rounds to 1.
\<close>

theorem decay_rate_unchecked:
  assumes "is_double w"
  shows "(rate < 0 \<or> 1 \<le> rate \<longrightarrow> calculateDecayedWeight w t rate t = Finite w)
    \<and> (t < now \<longrightarrow> calculateDecayedWeight w t 1 now = Finite 0)
    \<and> calculateDecayedWeight 100 0 (-1) 86400000 = Finite 200
    \<and> calculateDecayedWeight 100 0 (-1) (2000 * 86400000) = PosInfinity
    \<and> calculateDecayedWeight 100 0 2 (2 * 86400000) = Finite 100
    \<and> calculateDecayedWeight 100 0 2 43200000 = NaN
    \<and> calculateDecayedWeight 100 0 (- (1 / 2 ^ 60)) 86400000 = Finite 100"
proof -
  have "t < now \<longrightarrow> calculateDecayedWeight w t 1 now = Finite 0"
    using calculateDecayedWeight_rate_one by blast
  then show ?thesis
    using assms
    by (simp only: calculateDecayedWeight_same decay_rate_minus_one
          decay_rate_minus_one_overflow decay_rate_two decay_rate_two_half_day
          decay_rate_tiny_negative simp_thms)
qed

theorem decay_rate_unchecked_witness:
  "is_double 100
   \<and> calculateDecayedWeight 100 0 (-1) 0 = Finite 100
   \<and> calculateDecayedWeight 100 0 1 86400000 = Finite 0"
  using decay_rate_unchecked [of 100 "-1" 0 86400000] is_double_100
  by simp

text \<open>
  The claim as the specification words it fails: rates outside \<open>[0,1)\<close> are accepted and a
  number comes back.
\<close>

theorem decay_rate_counterexample:
  "calculateDecayedWeight 100 0 (-1) 86400000 = Finite 200
   \<and> calculateDecayedWeight 100 0 2 (2 * 86400000) = Finite 100
   \<and> calculateDecayedWeight 100 0 1 86400000 = Finite 0
   \<and> calculateDecayedWeight 100 0 2 43200000 = NaN"
  using decay_rate_minus_one decay_rate_two decay_rate_one decay_rate_two_half_day by simp

section \<open>Aggregation: top influencers\<close>

text \<open>
  \<^verbatim>\<open>Array.prototype.sort\<close> is a stable sort by the comparator (ECMAScript 2019); on a
  comparator that orders by a key every stable sort returns the same list, and the model
  is the insertion sort: an element goes in front of the first one it does not compare
  greater than. \<^verbatim>\<open>slice(0, limit)\<close> counts a negative limit from the end.
\<close>

record InfluenceNode =
  node_id :: string
  node_name :: string
  departmentId :: "string option"
  departmentName :: "string option"
  score :: real
  rawScore :: real
  volatility :: real


fun js_insert :: "('a \<Rightarrow> 'a \<Rightarrow> real) \<Rightarrow> 'a \<Rightarrow> 'a list \<Rightarrow> 'a list" where
  "js_insert cmp x [] = [x]"
| "js_insert cmp x (y # ys) = (if cmp x y \<le> 0 then x # y # ys else y # js_insert cmp x ys)"

definition js_sort :: "('a \<Rightarrow> 'a \<Rightarrow> real) \<Rightarrow> 'a list \<Rightarrow> 'a list" where
  "js_sort cmp xs = foldr (js_insert cmp) xs []"













section \<open>Result cache\<close>

text \<open>
  The class \<^verbatim>\<open>InfluenceCache\<close>. The \<^verbatim>\<open>Map\<close> of entries is an association list in insertion
  order (\<^verbatim>\<open>Map.set\<close> is \<^const>\<open>AList.update\<close>, \<^verbatim>\<open>Map.delete\<close> is \<^const>\<open>AList.delete\<close>); a
  stored value is of type \<^verbatim>\<open>T | null\<close>; \<^verbatim>\<open>Date.now()\<close> is a parameter. The cleanup timer is
  not modelled.
\<close>

datatype 'a nullable = Null | Value 'a

record 'a CacheEntry =
  entry_value :: "'a nullable"
  expiresAt :: int
  entry_createdAt :: int

record 'a InfluenceCache =
  cache :: "(string \<times> 'a CacheEntry) list"
  hits :: nat
  misses :: nat

definition get :: "string \<Rightarrow> int \<Rightarrow> 'a InfluenceCache \<Rightarrow> 'a nullable \<times> 'a InfluenceCache" where
  "get key now c =
     (case map_of (cache c) key of
        None \<Rightarrow> (Null, c\<lparr>misses := misses c + 1\<rparr>)
      | Some entry \<Rightarrow>
          if now > expiresAt entry
          then (Null, c\<lparr>cache := AList.delete key (cache c), misses := misses c + 1\<rparr>)
          else (entry_value entry, c\<lparr>hits := hits c + 1\<rparr>))"

definition set_entry :: "string \<Rightarrow> 'a nullable \<Rightarrow> int \<Rightarrow> int \<Rightarrow> 'a InfluenceCache \<Rightarrow> 'a InfluenceCache" where
  "set_entry key v ttlMs now c =
     c\<lparr>cache := AList.update key \<lparr>entry_value = v, expiresAt = now + ttlMs, entry_createdAt = now\<rparr>
                  (cache c)\<rparr>"

definition has :: "string \<Rightarrow> int \<Rightarrow> 'a InfluenceCache \<Rightarrow> bool \<times> 'a InfluenceCache" where
  "has key now c =
     (case map_of (cache c) key of
        None \<Rightarrow> (False, c)
      | Some entry \<Rightarrow>
          if now > expiresAt entry then (False, c\<lparr>cache := AList.delete key (cache c)\<rparr>)
          else (True, c))"

text \<open>
  \<^verbatim>\<open>getOrSet\<close>. The factory is a function of an outside world \<open>'w\<close> that it may change, so
  that calling it is visible; \<open>now\<close> is the time of the lookup and \<open>later\<close> the time of the
  store, after the factory has returned.
\<close>

definition getOrSet ::
  "string \<Rightarrow> ('w \<Rightarrow> 'a nullable \<times> 'w) \<Rightarrow> int \<Rightarrow> int \<Rightarrow> int \<Rightarrow> 'a InfluenceCache \<times> 'w
    \<Rightarrow> 'a nullable \<times> 'a InfluenceCache \<times> 'w" where
  "getOrSet key factory ttlMs now later st =
     (let (cached, c) = get key now (fst st)
      in if cached \<noteq> Null then (cached, c, snd st)
         else (let (v, w) = factory (snd st)
               in (v, set_entry key v ttlMs later c, w)))"

text \<open>
  \<^verbatim>\<open>deletePattern\<close> builds \<^verbatim>\<open>new RegExp(pattern.replace(/\*/g, '.*'))\<close> and deletes the keys
  on which \<^verbatim>\<open>regex.test\<close> holds. The regular expressions modelled are the sequences of
  literal characters, \<^verbatim>\<open>.\<close> and \<^verbatim>\<open>.*\<close>; \<^const>\<open>None\<close> stands for a pattern with another syntax
  character, which is outside this model. \<^verbatim>\<open>test\<close> searches for a match anywhere in the key,
  and \<^verbatim>\<open>.\<close> matches every character but a line terminator.
\<close>

definition replace_stars :: "string \<Rightarrow> string" where
  "replace_stars pattern = concat (map (\<lambda>c. if c = CHR ''*'' then ''.*'' else [c]) pattern)"

datatype regex_item = Lit char | AnyChar | AnyStar

definition syntax_character :: "char \<Rightarrow> bool" where
  "syntax_character c = (c \<in> set ''^$.*+?()[]{}|'' \<or> c = CHR 0x5C)"

definition regex_atom :: "char \<Rightarrow> regex_item option" where
  "regex_atom c =
     (if c = CHR ''.'' then Some AnyChar
      else if syntax_character c then None
      else Some (Lit c))"

fun parse_regex :: "string \<Rightarrow> regex_item list option" where
  "parse_regex [] = Some []"
| "parse_regex [c] = map_option (\<lambda>i. [i]) (regex_atom c)"
| "parse_regex (c # d # cs) =
     (if c = CHR ''.'' \<and> d = CHR ''*'' then map_option ((#) AnyStar) (parse_regex cs)
      else (case regex_atom c of
              None \<Rightarrow> None
            | Some i \<Rightarrow> map_option ((#) i) (parse_regex (d # cs))))"

definition line_terminator :: "char \<Rightarrow> bool" where
  "line_terminator c = (c = CHR 0x0A \<or> c = CHR 0x0D)"

fun match_here :: "regex_item list \<Rightarrow> string \<Rightarrow> bool" where
  "match_here [] s = True"
| "match_here (Lit c # r) [] = False"
| "match_here (Lit c # r) (x # xs) = (x = c \<and> match_here r xs)"
| "match_here (AnyChar # r) [] = False"
| "match_here (AnyChar # r) (x # xs) = (\<not> line_terminator x \<and> match_here r xs)"
| "match_here (AnyStar # r) [] = match_here r []"
| "match_here (AnyStar # r) (x # xs) =
     (match_here r (x # xs) \<or> (\<not> line_terminator x \<and> match_here (AnyStar # r) xs))"

fun regex_test :: "regex_item list \<Rightarrow> string \<Rightarrow> bool" where
  "regex_test r [] = match_here r []"
| "regex_test r (x # xs) = (match_here r (x # xs) \<or> regex_test r xs)"

fun delete_matching ::
  "regex_item list \<Rightarrow> string list \<Rightarrow> (string \<times> 'a) list \<times> nat \<Rightarrow> (string \<times> 'a) list \<times> nat" where
  "delete_matching r [] st = st"
| "delete_matching r (key # keys) st =
     (if regex_test r key then delete_matching r keys (AList.delete key (fst st), snd st + 1)
      else delete_matching r keys st)"

definition deletePattern :: "string \<Rightarrow> 'a InfluenceCache \<Rightarrow> (nat \<times> 'a InfluenceCache) option" where
  "deletePattern pattern c =
     (case parse_regex (replace_stars pattern) of
        None \<Rightarrow> None
      | Some regex \<Rightarrow>
          (let st = delete_matching regex (map fst (cache c)) (cache c, 0)
           in Some (snd st, c\<lparr>cache := fst st\<rparr>)))"

text \<open>
  The glob of the specification: the whole key is matched, \<^verbatim>\<open>*\<close> stands for any substring
  and every other character for itself.
\<close>

fun glob_match :: "string \<Rightarrow> string \<Rightarrow> bool" where
  "glob_match [] s = (s = [])"
| "glob_match (p # ps) [] = (p = CHR ''*'' \<and> glob_match ps [])"
| "glob_match (p # ps) (x # xs) =
     (if p = CHR ''*'' then glob_match ps (x # xs) \<or> glob_match (p # ps) xs
      else x = p \<and> glob_match ps xs)"

definition mk_entry :: "'a nullable \<Rightarrow> 'a CacheEntry" where
  "mk_entry v = \<lparr>entry_value = v, expiresAt = 1000, entry_createdAt = 0\<rparr>"

definition cache3 :: "nat InfluenceCache" where
  "cache3 = \<lparr>cache = [(''graph:org1'', mk_entry (Value 1)),
                      (''subgraph:org1'', mk_entry (Value 2)),
                      (''graph:org2'', mk_entry (Value 3))], hits = 0, misses = 0\<rparr>"

lemma delete_matching_filter:
  "delete_matching r ks (m, n)
     = (filter (\<lambda>kv. \<not> (fst kv \<in> set ks \<and> regex_test r (fst kv))) m,
        n + length (filter (regex_test r) ks))"
proof (induction ks arbitrary: m n)
  case Nil
  then show ?case by simp
next
  case (Cons k ks)
  have "AList.delete k m = filter (\<lambda>kv. fst kv \<noteq> k) m"
    by (simp add: AList.delete_eq case_prod_unfold eq_commute)
  then show ?case
    using Cons by (auto intro!: filter_cong)
qed

lemma deletePattern_result:
  assumes "parse_regex (replace_stars pattern) = Some r"
  shows "deletePattern pattern c
     = Some (length (filter (\<lambda>kv. regex_test r (fst kv)) (cache c)),
             c\<lparr>cache := filter (\<lambda>kv. \<not> regex_test r (fst kv)) (cache c)\<rparr>)"
proof -
  have "filter (regex_test r) (map fst (cache c))
      = map fst (filter (\<lambda>kv. regex_test r (fst kv)) (cache c))"
    by (simp add: filter_map comp_def)
  then have "length (filter (regex_test r) (map fst (cache c)))
      = length (filter (\<lambda>kv. regex_test r (fst kv)) (cache c))"
    by simp
  moreover have "filter (\<lambda>kv. \<not> (fst kv \<in> set (map fst (cache c)) \<and> regex_test r (fst kv))) (cache c)
      = filter (\<lambda>kv. \<not> regex_test r (fst kv)) (cache c)"
    by (rule filter_cong) auto
  ultimately show ?thesis
    using assms by (simp add: deletePattern_def delete_matching_filter)
qed

lemma replace_stars_Nil: "replace_stars [] = []"
  by (simp add: replace_stars_def)

lemma replace_stars_Cons:
  "replace_stars (p # ps) = (if p = CHR ''*'' then ''.*'' else [p]) @ replace_stars ps"
  by (simp add: replace_stars_def)

lemma replace_stars_no_leading_star: "replace_stars ps = d # cs \<Longrightarrow> d \<noteq> CHR ''*''"
  by (cases ps) (auto simp: replace_stars_Cons replace_stars_Nil split: if_splits)

lemma regex_atom_star: "regex_atom (CHR ''*'') = None"
  by (simp add: regex_atom_def syntax_character_def)

lemma parse_regex_replace_stars_Cons:
  "parse_regex (replace_stars (p # ps))
     = (if p = CHR ''*'' then map_option ((#) AnyStar) (parse_regex (replace_stars ps))
        else (case regex_atom p of
                None \<Rightarrow> None
              | Some i \<Rightarrow> map_option ((#) i) (parse_regex (replace_stars ps))))"
proof (cases "p = CHR ''*''")
  case True
  then show ?thesis by (simp add: replace_stars_Cons)
next
  case False
  show ?thesis
  proof (cases "replace_stars ps")
    case Nil
    with False show ?thesis
      by (simp add: replace_stars_Cons split: option.splits)
  next
    case (Cons d cs)
    then have "d \<noteq> CHR ''*''"
      by (rule replace_stars_no_leading_star)
    with False Cons show ?thesis
      by (simp add: replace_stars_Cons split: option.splits)
  qed
qed

lemma glob_match_here:
  "glob_match p s \<Longrightarrow> \<forall>x\<in>set s. \<not> line_terminator x
    \<Longrightarrow> parse_regex (replace_stars p) = Some r \<Longrightarrow> match_here r s"
proof (induction p s arbitrary: r rule: glob_match.induct)
  case (1 s)
  then show ?case by (simp add: replace_stars_Nil)
next
  case (2 p ps)
  then show ?case
    by (auto simp: parse_regex_replace_stars_Cons)
next
  case (3 p ps x xs)
  show ?case
  proof (cases "p = CHR ''*''")
    case True
    with 3 show ?thesis
      by (auto simp: parse_regex_replace_stars_Cons)
  next
    case False
    with 3 show ?thesis
      by (auto simp: parse_regex_replace_stars_Cons regex_atom_def split: option.splits if_splits)
  qed
qed

lemma match_here_regex_test: "match_here r s \<Longrightarrow> regex_test r s"
  by (cases s) simp_all

lemma glob_match_regex_test:
  "glob_match p s \<Longrightarrow> \<forall>x\<in>set s. \<not> line_terminator x
    \<Longrightarrow> parse_regex (replace_stars p) = Some r \<Longrightarrow> regex_test r s"
  by (rule match_here_regex_test) (rule glob_match_here)

text \<open>
  Claim C4. The call \<^verbatim>\<open>deletePattern("graph:org1*")\<close> on a cache with the keys
  \<^verbatim>\<open>graph:org1\<close>, \<^verbatim>\<open>subgraph:org1\<close> and \<^verbatim>\<open>graph:org2\<close> deletes two keys: the regular
  expression is not anchored, so the key \<^verbatim>\<open>subgraph:org1\<close> is deleted although it has another
  prefix and the glob does not match it.
\<close>

theorem deletePattern_unanchored:
  "deletePattern ''graph:org1*'' cache3
     = Some (2, cache3\<lparr>cache := [(''graph:org2'', mk_entry (Value 3))]\<rparr>)
   \<and> glob_match ''graph:org1*'' ''graph:org1''
   \<and> \<not> glob_match ''graph:org1*'' ''subgraph:org1''
   \<and> \<not> glob_match ''graph:org1*'' ''graph:org2''"
  by (simp add: deletePattern_def replace_stars_def regex_atom_def syntax_character_def
        cache3_def)

lemma map_of_update_same: "map_of (AList.update k v al) k = Some v"
  by (simp add: update_conv')

lemma get_null_entry:
  assumes "map_of (cache c) key = Some e" and "entry_value e = Null" and "now \<le> expiresAt e"
  shows "get key now c = (Null, c\<lparr>hits := hits c + 1\<rparr>)"
  using assms by (simp add: get_def)

lemma get_absent:
  "map_of (cache c) key = None \<Longrightarrow> get key now c = (Null, c\<lparr>misses := misses c + 1\<rparr>)"
  by (simp add: get_def)

lemma getOrSet_null_entry:
  assumes "map_of (cache c) key = Some e" and "entry_value e = Null" and "now \<le> expiresAt e"
  shows "getOrSet key factory ttlMs now later (c, w)
     = (fst (factory w), set_entry key (fst (factory w)) ttlMs later (c\<lparr>hits := hits c + 1\<rparr>),
        snd (factory w))"
  using assms by (simp add: getOrSet_def get_null_entry split: prod.splits)

lemma set_entry_entry:
  "map_of (cache (set_entry key v ttlMs later c)) key
     = Some \<lparr>entry_value = v, expiresAt = later + ttlMs, entry_createdAt = later\<rparr>"
  by (simp add: set_entry_def map_of_update_same)

text \<open>
  Claim C10, as the code has it. Through the values that \<^verbatim>\<open>get\<close> and \<^verbatim>\<open>getOrSet\<close> return a
  stored \<^verbatim>\<open>null\<close> cannot be told from a miss. For a key whose entry is not expired and holds
  \<^verbatim>\<open>null\<close>, \<^verbatim>\<open>get\<close> returns
  \<^verbatim>\<open>null\<close>, which is what it returns for a key that is absent, and \<^verbatim>\<open>getOrSet\<close> calls the
  factory, stores what it returns and returns that. When the factory returns \<^verbatim>\<open>null\<close> again
  the next call, made before the new entry expires, calls the factory again.
\<close>

theorem stored_null_is_a_miss:
  assumes "map_of (cache c) key = Some e" and "entry_value e = Null" and "now \<le> expiresAt e"
  shows "fst (get key now c) = Null
    \<and> (\<forall>c'. map_of (cache c') key = None \<longrightarrow> fst (get key now c') = fst (get key now c))
    \<and> getOrSet key factory ttlMs now later (c, w)
        = (fst (factory w),
           set_entry key (fst (factory w)) ttlMs later (c\<lparr>hits := hits c + 1\<rparr>),
           snd (factory w))
    \<and> (fst (factory w) = Null \<and> now2 \<le> later + ttlMs \<longrightarrow>
         (\<exists>c2. getOrSet key factory ttlMs now2 later2
                 (snd (getOrSet key factory ttlMs now later (c, w)))
               = (fst (factory (snd (factory w))), c2, snd (factory (snd (factory w))))))"
proof -
  let ?c1 = "set_entry key (fst (factory w)) ttlMs later (c\<lparr>hits := hits c + 1\<rparr>)"
  have first: "getOrSet key factory ttlMs now later (c, w) = (fst (factory w), ?c1, snd (factory w))"
    using assms by (rule getOrSet_null_entry)
  have second: "getOrSet key factory ttlMs now2 later2 (?c1, snd (factory w))
      = (fst (factory (snd (factory w))),
         set_entry key (fst (factory (snd (factory w)))) ttlMs later2 (?c1\<lparr>hits := hits ?c1 + 1\<rparr>),
         snd (factory (snd (factory w))))"
    if "fst (factory w) = Null" "now2 \<le> later + ttlMs"
    by (rule getOrSet_null_entry [OF set_entry_entry]) (simp_all add: that)
  show ?thesis
    using assms first second by (auto simp: get_null_entry get_absent)
qed

definition counting_factory :: "nat \<Rightarrow> nat nullable \<times> nat" where
  "counting_factory calls = (Null, calls + 1)"

definition null_cache :: "nat InfluenceCache" where
  "null_cache = \<lparr>cache = [(''k'', \<lparr>entry_value = Null, expiresAt = 300000, entry_createdAt = 0\<rparr>)],
                 hits = 0, misses = 0\<rparr>"

theorem stored_null_is_a_miss_witness:
  "fst (get ''k'' 10 null_cache) = Null
   \<and> fst (getOrSet ''k'' counting_factory 300000 10 11 (null_cache, 0)) = Null
   \<and> snd (snd (getOrSet ''k'' counting_factory 300000 10 11 (null_cache, 0))) = 1
   \<and> snd (snd (getOrSet ''k'' counting_factory 300000 12 13
         (snd (getOrSet ''k'' counting_factory 300000 10 11 (null_cache, 0))))) = 2"
  using stored_null_is_a_miss [of null_cache "''k''"
      "\<lparr>entry_value = Null, expiresAt = 300000, entry_createdAt = 0\<rparr>" 10
      counting_factory 300000 11 0 12 13]
  by (simp add: null_cache_def counting_factory_def getOrSet_def get_def set_entry_def)

text \<open>
  The claim as the specification words it, for the whole public interface, fails: \<^verbatim>\<open>has\<close>
  answers \<open>true\<close> for the stored \<^verbatim>\<open>null\<close> and \<open>false\<close> for a key that is absent, and \<^verbatim>\<open>get\<close>
  counts a hit for the first and a miss for the second.
\<close>

definition empty_cache :: "nat InfluenceCache" where
  "empty_cache = \<lparr>cache = [], hits = 0, misses = 0\<rparr>"

theorem stored_null_has_counterexample:
  "fst (get ''k'' 10 null_cache) = fst (get ''k'' 10 empty_cache)
   \<and> fst (has ''k'' 10 null_cache) = True
   \<and> fst (has ''k'' 10 empty_cache) = False
   \<and> hits (snd (get ''k'' 10 null_cache)) = 1 \<and> misses (snd (get ''k'' 10 null_cache)) = 0
   \<and> hits (snd (get ''k'' 10 empty_cache)) = 0 \<and> misses (snd (get ''k'' 10 empty_cache)) = 1"
  by (simp add: get_def has_def null_cache_def empty_cache_def)

section \<open>Community detector\<close>














































section \<open>Recompute orchestrator\<close>

text \<open>
  The handler \<^verbatim>\<open>POST /api/influence/recalculate\<close>. The tables it reads and writes through
  the database client are lists of rows, with the columns the handler uses; \<^verbatim>\<open>findMany\<close>
  is a filter (and a stable sort where the query has an \<^verbatim>\<open>orderBy\<close>), \<^verbatim>\<open>updateMany\<close> a map
  over the rows. The clock is the parameter \<open>now\<close>, read once for the whole cycle. The
  cache invalidation at the end of the handler and the catch-all error response are not
  part of this model.
\<close>

record EdgeRow = InfluenceEdge +
  edge_organizationId :: string
  edge_isActive :: bool

record EventRow =
  event_id :: string
  event_organizationId :: string
  subjectUserId :: string
  weightDelta :: real
  eventType :: string
  event_createdAt :: int
  processedAt :: "int option"

record UserRow =
  user_id :: string
  user_organizationId :: string
  user_isActive :: bool

record ScoreRow =
  score_userId :: string
  scoreType :: string
  row_score :: real
  row_rawScore :: real
  row_volatility :: real
  row_rank :: nat
  calculatedAt :: int

record Database =
  db_edges :: "EdgeRow list"
  db_events :: "EventRow list"
  db_users :: "UserRow list"
  db_scores :: "ScoreRow list"

record ScoreData =
  sd_id :: string
  currentScore :: real
  newScore :: real
  sd_directInfluence :: real
  sd_propagatedInfluence :: real
  eventBonus :: real

record ScoreUpdate =
  su_userId :: string
  oldScore :: real
  su_newScore :: real
  su_rank :: nat
  su_volatility :: real

record Stats =
  usersProcessed :: nat
  edgesProcessed :: nat
  eventsProcessed :: nat
  scoresUpdated :: nat

datatype response = BadRequest | Success Stats "ScoreUpdate list"

text \<open>\<^verbatim>\<open>calculateVolatility\<close>: the population standard deviation.\<close>

definition calculateVolatility :: "real list \<Rightarrow> real" where
  "calculateVolatility historicalScores =
     (if length historicalScores < 2 then 0
      else (let mean = foldl (+) 0 historicalScores / real (length historicalScores);
                squaredDiffs = map (\<lambda>score. (score - mean)\<^sup>2) historicalScores;
                variance = foldl (+) 0 squaredDiffs / real (length historicalScores)
            in sqrt variance))"

definition active_edges :: "string \<Rightarrow> Database \<Rightarrow> EdgeRow list" where
  "active_edges org db = filter (\<lambda>e. edge_organizationId e = org \<and> edge_isActive e) (db_edges db)"

definition pending_events :: "string \<Rightarrow> Database \<Rightarrow> EventRow list" where
  "pending_events org db =
     sort_key event_createdAt
       (filter (\<lambda>e. event_organizationId e = org \<and> processedAt e = None) (db_events db))"

definition active_users :: "string \<Rightarrow> Database \<Rightarrow> UserRow list" where
  "active_users org db = filter (\<lambda>u. user_organizationId u = org \<and> user_isActive u) (db_users db)"

definition influenceScores :: "Database \<Rightarrow> UserRow \<Rightarrow> ScoreRow list" where
  "influenceScores db u =
     filter (\<lambda>s. score_userId s = user_id u \<and> scoreType s = ''TOTAL'') (db_scores db)"

definition outgoingInfluence :: "Database \<Rightarrow> UserRow \<Rightarrow> EdgeRow list" where
  "outgoingInfluence db u =
     filter (\<lambda>e. sourceUserId e = user_id u \<and> edge_isActive e) (db_edges db)"

text \<open>
  The handler calls \<^verbatim>\<open>calculateDecayedWeight\<close> with the default rate. From there on the
  weights are reals: the finite result is taken as it is, and an infinite one, which needs
  an edge created thousands of days in the future, is outside this model of the handler
  (\<open>number_value\<close> gives it the value 0); no statement below depends on a weight.
\<close>

definition number_value :: "js_number \<Rightarrow> real" where
  "number_value x = (case x of Finite v \<Rightarrow> v | _ \<Rightarrow> 0)"

definition decayedWeight :: "bool \<Rightarrow> int \<Rightarrow> EdgeRow \<Rightarrow> real" where
  "decayedWeight applyDecay now e =
     (if applyDecay
      then number_value (calculateDecayedWeight (weight e) (createdAt e) DEFAULT_DECAY_RATE now)
      else weight e)"

definition typedEdge :: "bool \<Rightarrow> int \<Rightarrow> EdgeRow \<Rightarrow> InfluenceEdge" where
  "typedEdge applyDecay now e =
     \<lparr>edge_id = edge_id e, sourceUserId = sourceUserId e, targetUserId = targetUserId e,
      weight = decayedWeight applyDecay now e, createdAt = createdAt e\<rparr>"

definition impact_of :: "(string \<rightharpoonup> real) \<Rightarrow> string \<Rightarrow> real" where
  "impact_of eventImpact u = (case eventImpact u of None \<Rightarrow> 0 | Some x \<Rightarrow> x)"

definition add_event :: "EventRow \<Rightarrow> (string \<rightharpoonup> real) \<Rightarrow> (string \<rightharpoonup> real)" where
  "add_event event eventImpact =
     eventImpact(subjectUserId event \<mapsto> impact_of eventImpact (subjectUserId event) + weightDelta event)"

definition score_user ::
  "Database \<Rightarrow> bool \<Rightarrow> int \<Rightarrow> (string \<rightharpoonup> PropagationResult) \<Rightarrow> (string \<rightharpoonup> real) \<Rightarrow> UserRow
    \<Rightarrow> ScoreData" where
  "score_user db applyDecay now propagationResults eventImpact user =
     (let current = (case influenceScores db user of [] \<Rightarrow> 0 | s # _ \<Rightarrow> row_score s);
          propagated = (case propagationResults (user_id user) of
                          None \<Rightarrow> 0 | Some p \<Rightarrow> propagatedInfluence p);
          bonus = impact_of eventImpact (user_id user);
          direct = foldl (\<lambda>sum e. sum + decayedWeight applyDecay now e) 0
                     (outgoingInfluence db user)
      in \<lparr>sd_id = user_id user, currentScore = current,
          newScore = max 0 (direct + propagated + bonus),
          sd_directInfluence = direct, sd_propagatedInfluence = propagated,
          eventBonus = bonus\<rparr>)"

text \<open>Step 2: the events of the cycle, none when \<^verbatim>\<open>processEvents\<close> is off.\<close>

definition loaded_events :: "string \<Rightarrow> bool \<Rightarrow> Database \<Rightarrow> EventRow list" where
  "loaded_events org processEvents db = (if processEvents then pending_events org db else [])"

text \<open>Steps 3 to 7: the new score of every active user, sorted for ranking.\<close>

definition scoresWithIds :: "string \<Rightarrow> bool \<Rightarrow> bool \<Rightarrow> int \<Rightarrow> Database \<Rightarrow> ScoreData list option" where
  "scoresWithIds org applyDecay processEvents now db =
     (let users = active_users org db;
          typedEdges = map (typedEdge applyDecay now) (active_edges org db);
          eventImpact = fold add_event (loaded_events org processEvents db) Map.empty
      in case calculatePropagatedInfluence typedEdges (map user_id users) MAX_DEPTH DECAY_FACTOR of
           None \<Rightarrow> None
         | Some propagationResults \<Rightarrow>
             Some (js_sort (\<lambda>a b. newScore b - newScore a)
                     (map (score_user db applyDecay now propagationResults eventImpact) users)))"

text \<open>The score update loop and step 8, which marks the events of the cycle.\<close>

definition historicalScores :: "string list \<Rightarrow> Database \<Rightarrow> ScoreRow list" where
  "historicalScores userIds db =
     take 30 (sort_key (\<lambda>s. - calculatedAt s)
       (filter (\<lambda>s. score_userId s \<in> set userIds \<and> scoreType s = ''TOTAL'') (db_scores db)))"

definition volatility_of :: "ScoreRow list \<Rightarrow> ScoreData \<Rightarrow> real" where
  "volatility_of history scoreData =
     calculateVolatility
       (take 10 (newScore scoreData
                   # map row_score (filter (\<lambda>s. score_userId s = sd_id scoreData) history)))"

definition persist_score :: "ScoreRow list \<Rightarrow> int \<Rightarrow> nat \<times> ScoreData \<Rightarrow> ScoreRow list \<Rightarrow> ScoreRow list" where
  "persist_score history now entry rows =
     map (\<lambda>s. if score_userId s = sd_id (snd entry) \<and> scoreType s = ''TOTAL''
               then s\<lparr>row_score := newScore (snd entry),
                      row_rawScore := sd_directInfluence (snd entry),
                      row_volatility := volatility_of history (snd entry),
                      row_rank := fst entry + 1,
                      calculatedAt := now\<rparr>
               else s) rows"

definition score_update :: "ScoreRow list \<Rightarrow> nat \<times> ScoreData \<Rightarrow> ScoreUpdate" where
  "score_update history entry =
     \<lparr>su_userId = sd_id (snd entry), oldScore = currentScore (snd entry),
      su_newScore = newScore (snd entry), su_rank = fst entry + 1,
      su_volatility = volatility_of history (snd entry)\<rparr>"

definition mark_processed :: "EventRow list \<Rightarrow> int \<Rightarrow> EventRow list \<Rightarrow> EventRow list" where
  "mark_processed events now rows =
     (if events = [] then rows
      else map (\<lambda>e. if event_id e \<in> set (map event_id events)
                     then e\<lparr>processedAt := Some now\<rparr> else e) rows)"

definition POST :: "string \<Rightarrow> bool \<Rightarrow> bool \<Rightarrow> int \<Rightarrow> Database \<Rightarrow> (response \<times> Database) option" where
  "POST organizationId applyDecay processEvents now db =
     (if organizationId = [] then Some (BadRequest, db)
      else (case scoresWithIds organizationId applyDecay processEvents now db of
              None \<Rightarrow> None
            | Some ranked \<Rightarrow>
                (let events = loaded_events organizationId processEvents db;
                     users = active_users organizationId db;
                     history = historicalScores (map user_id users) db;
                     entries = enumerate 0 ranked;
                     scoreUpdates = map (score_update history) entries;
                     stats = \<lparr>usersProcessed = length users,
                              edgesProcessed = length (active_edges organizationId db),
                              eventsProcessed = length events,
                              scoresUpdated = length scoreUpdates\<rparr>
                 in Some (Success stats (take 5 scoreUpdates),
                          db\<lparr>db_scores := fold (persist_score history now) entries (db_scores db),
                             db_events := mark_processed events now (db_events db)\<rparr>))))"

text \<open>
  The scenario of the specification: no edges, one user \<open>X\<close> with a stored score of 0 and
  one unprocessed event of \<open>+15\<close> for \<open>X\<close>; \<open>db1\<close> is the database after one cycle at time
  100.
\<close>

definition event15 :: EventRow where
  "event15 = \<lparr>event_id = ''ev1'', event_organizationId = ''org1'', subjectUserId = ''X'',
      weightDelta = 15, eventType = ''PROJECT_SUCCESS'', event_createdAt = 0, processedAt = None\<rparr>"

definition userX :: UserRow where
  "userX = \<lparr>user_id = ''X'', user_organizationId = ''org1'', user_isActive = True\<rparr>"

definition scoreX :: ScoreRow where
  "scoreX = \<lparr>score_userId = ''X'', scoreType = ''TOTAL'', row_score = 0, row_rawScore = 0,
      row_volatility = 0, row_rank = 1, calculatedAt = 0\<rparr>"

definition db0 :: Database where
  "db0 = \<lparr>db_edges = [], db_events = [event15], db_users = [userX], db_scores = [scoreX]\<rparr>"

definition db1 :: Database where
  "db1 = \<lparr>db_edges = [], db_events = [event15\<lparr>processedAt := Some 100\<rparr>],
          db_users = [userX],
          db_scores = [scoreX\<lparr>row_score := 15, row_volatility := 15 / 2,
                               calculatedAt := 100\<rparr>]\<rparr>"

lemma set_js_insert: "set (js_insert cmp x ys) = insert x (set ys)"
  by (induction ys) auto

lemma set_js_sort: "set (js_sort cmp xs) = set xs"
  by (induction xs) (simp_all add: js_sort_def set_js_insert)

lemma impact_of_fold_add_event:
  "impact_of (fold add_event evs m) u
     = impact_of m u + sum_list (map weightDelta (filter (\<lambda>e. subjectUserId e = u) evs))"
  by (induction evs arbitrary: m) (simp_all add: add_event_def impact_of_def)

lemma scoresWithIds_total:
  "\<exists>scores. scoresWithIds org applyDecay processEvents now db = Some scores
     \<and> (\<forall>s\<in>set scores. eventBonus s
           = sum_list (map weightDelta
               (filter (\<lambda>e. subjectUserId e = sd_id s) (loaded_events org processEvents db))))"
proof -
  let ?edges = "map (typedEdge applyDecay now) (active_edges org db)"
  let ?ids = "map user_id (active_users org db)"
  obtain results where
    res: "calculatePropagatedInfluence ?edges ?ids MAX_DEPTH DECAY_FACTOR = Some results"
    using propagate_all_results [of "buildAdjacencyList ?edges" MAX_DEPTH DECAY_FACTOR ?ids Map.empty]
    by (auto simp: calculatePropagatedInfluence_def)
  have bonus: "eventBonus (score_user db applyDecay now results
        (fold add_event (loaded_events org processEvents db) Map.empty) u)
      = sum_list (map weightDelta
          (filter (\<lambda>e. subjectUserId e = user_id u) (loaded_events org processEvents db)))" for u
    by (simp add: score_user_def Let_def impact_of_fold_add_event) (simp add: impact_of_def)
  have sid: "sd_id (score_user db applyDecay now results ei u) = user_id u" for ei u
    by (simp add: score_user_def Let_def)
  have "scoresWithIds org applyDecay processEvents now db
      = Some (js_sort (\<lambda>a b. newScore b - newScore a)
          (map (score_user db applyDecay now results
             (fold add_event (loaded_events org processEvents db) Map.empty))
             (active_users org db)))"
    by (simp add: scoresWithIds_def res Let_def)
  then show ?thesis
    using bonus sid by (auto simp: set_js_sort)
qed

lemma mark_processed_pending:
  assumes "distinct (map event_id (db_events db))"
  shows "mark_processed (pending_events org db) now (db_events db)
     = map (\<lambda>e. if event_organizationId e = org \<and> processedAt e = None
                 then e\<lparr>processedAt := Some now\<rparr> else e) (db_events db)"
proof -
  let ?pending = "\<lambda>e. event_organizationId e = org \<and> processedAt e = None"
  have set_pending: "set (pending_events org db) = {e \<in> set (db_events db). ?pending e}"
    by (simp add: pending_events_def)
  have member: "event_id e \<in> set (map event_id (pending_events org db)) \<longleftrightarrow> ?pending e"
    if e: "e \<in> set (db_events db)" for e
  proof
    assume "event_id e \<in> set (map event_id (pending_events org db))"
    then obtain e' where e': "e' \<in> set (db_events db)" "?pending e'" "event_id e' = event_id e"
      using set_pending by auto
    have "inj_on event_id (set (db_events db))"
      using assms by (simp add: distinct_map)
    then have "e' = e"
      using e e' by (auto dest: inj_onD)
    with e' show "?pending e" by simp
  next
    assume "?pending e"
    with e have "e \<in> set (pending_events org db)"
      using set_pending by simp
    then show "event_id e \<in> set (map event_id (pending_events org db))"
      by simp
  qed
  show ?thesis
  proof (cases "pending_events org db = []")
    case True
    then have "\<forall>e\<in>set (db_events db). \<not> ?pending e"
      using set_pending by auto
    then have "map (\<lambda>e. if ?pending e then e\<lparr>processedAt := Some now\<rparr> else e) (db_events db)
        = map (\<lambda>e. e) (db_events db)"
      by (intro map_cong) auto
    with True show ?thesis
      by (simp add: mark_processed_def)
  next
    case False
    have "map (\<lambda>e. if event_id e \<in> set (map event_id (pending_events org db))
                    then e\<lparr>processedAt := Some now\<rparr> else e) (db_events db)
        = map (\<lambda>e. if ?pending e then e\<lparr>processedAt := Some now\<rparr> else e) (db_events db)"
      by (rule map_cong) (simp_all only: member)
    with False show ?thesis
      by (simp add: mark_processed_def)
  qed
qed

lemma pending_events_after_mark:
  assumes "db_events db' = map (\<lambda>e. if event_organizationId e = org \<and> processedAt e = None
                 then e\<lparr>processedAt := Some now\<rparr> else e) (db_events db)"
  shows "pending_events org db' = []"
proof -
  let ?mark = "\<lambda>e. if event_organizationId e = org \<and> processedAt e = None
                 then e\<lparr>processedAt := Some now\<rparr> else e"
  have marked: "\<not> (event_organizationId (?mark e) = org \<and> processedAt (?mark e) = None)" for e
    by simp
  have none_left: "filter (\<lambda>e. event_organizationId e = org \<and> processedAt e = None)
          (map ?mark xs) = []" for xs
  proof (induction xs)
    case Nil
    show ?case by simp
  next
    case (Cons e xs)
    show ?case
      using marked [of e] Cons by (simp only: list.map filter.simps if_False)
  qed
  show ?thesis
    by (simp only: pending_events_def assms none_left sort_key_simps)
qed

lemma POST_events:
  assumes "organizationId \<noteq> []"
  shows "\<exists>resp db'. POST organizationId applyDecay processEvents now db = Some (resp, db')
     \<and> db_events db' = mark_processed (loaded_events organizationId processEvents db) now (db_events db)"
proof -
  obtain scores where "scoresWithIds organizationId applyDecay processEvents now db = Some scores"
    using scoresWithIds_total by blast
  then show ?thesis
    using assms by (simp add: POST_def Let_def)
qed


lemma calculateVolatility_15_0: "calculateVolatility [15, 0] = 15 / 2"
proof -
  have "sqrt ((15 / 2)\<^sup>2) = 15 / (2::real)"
    by (rule real_sqrt_unique) simp_all
  moreover have "((15 / 2)\<^sup>2 :: real) = 225 / 4"
    by (simp add: power2_eq_square)
  ultimately show ?thesis
    by (simp add: calculateVolatility_def power2_eq_square)
qed

lemmas scenario_eval = scoresWithIds_def loaded_events_def pending_events_def active_users_def
  active_edges_def score_user_def influenceScores_def outgoingInfluence_def add_event_def
  impact_of_def js_sort_def MAX_DEPTH_def DECAY_FACTOR_def propagation_eval
  event15_def userX_def scoreX_def

lemma scenario_first_scores:
  "scoresWithIds ''org1'' True True 100 db0
     = Some [\<lparr>sd_id = ''X'', currentScore = 0, newScore = 15, sd_directInfluence = 0,
              sd_propagatedInfluence = 0, eventBonus = 15\<rparr>]"
  by (simp add: scenario_eval db0_def)

lemma scenario_first_POST:
  "POST ''org1'' True True 100 db0
     = Some (Success \<lparr>usersProcessed = 1, edgesProcessed = 0, eventsProcessed = 1,
                      scoresUpdated = 1\<rparr>
               [\<lparr>su_userId = ''X'', oldScore = 0, su_newScore = 15, su_rank = 1,
                 su_volatility = 15 / 2\<rparr>],
             db1)"
  using calculateVolatility_15_0
  by (simp add: POST_def scenario_first_scores)
     (simp add: db0_def db1_def loaded_events_def pending_events_def active_users_def
        active_edges_def historicalScores_def persist_score_def score_update_def
        mark_processed_def volatility_of_def event15_def userX_def scoreX_def enumerate_eq_zip)

lemma scenario_second_scores:
  "scoresWithIds ''org1'' True True 101 db1
     = Some [\<lparr>sd_id = ''X'', currentScore = 15, newScore = 0, sd_directInfluence = 0,
              sd_propagatedInfluence = 0, eventBonus = 0\<rparr>]"
  by (simp add: scenario_eval db1_def)

text \<open>
  Claim C2, as the code has it. With unique event ids, a cycle that processes events folds
  exactly the unprocessed events of the organization into the event bonus of their
  subjects and sets \<open>processedAt\<close> on exactly those events; after it no event of the
  organization is pending, so the event bonus of every user is 0 in the next cycle and no
  event is applied twice. In the scenario the first cycle gives \<open>newScore(X) = 15\<close> and
  marks the event; the cycle run right after it gives \<open>newScore(X) = 0\<close>: a score is
  computed from the edges and the pending events alone, and the bonus of a consumed event
  is not carried over.
\<close>

theorem events_consumed_once:
  assumes "distinct (map event_id (db_events db))" and "organizationId \<noteq> []"
  shows "(\<exists>resp db'. POST organizationId applyDecay True now db = Some (resp, db')
      \<and> db_events db'
          = map (\<lambda>e. if event_organizationId e = organizationId \<and> processedAt e = None
                      then e\<lparr>processedAt := Some now\<rparr> else e) (db_events db)
      \<and> pending_events organizationId db' = []
      \<and> (\<exists>scores. scoresWithIds organizationId applyDecay True now db = Some scores
            \<and> (\<forall>s\<in>set scores. eventBonus s
                  = sum_list (map weightDelta
                      (filter (\<lambda>e. subjectUserId e = sd_id s)
                         (pending_events organizationId db)))))
      \<and> (\<exists>scores'. scoresWithIds organizationId applyDecay True later db' = Some scores'
            \<and> (\<forall>s\<in>set scores'. eventBonus s = 0)))
    \<and> map_option (map newScore) (scoresWithIds ''org1'' True True 100 db0) = Some [15]
    \<and> map_option snd (POST ''org1'' True True 100 db0) = Some db1
    \<and> map processedAt (db_events db1) = [Some 100]
    \<and> map_option (map newScore) (scoresWithIds ''org1'' True True 101 db1) = Some [0]"
proof -
  obtain resp db' where post: "POST organizationId applyDecay True now db = Some (resp, db')"
    and "db_events db' = mark_processed (loaded_events organizationId True db) now (db_events db)"
    using POST_events [OF assms(2)] by blast
  then have events': "db_events db'
      = map (\<lambda>e. if event_organizationId e = organizationId \<and> processedAt e = None
                  then e\<lparr>processedAt := Some now\<rparr> else e) (db_events db)"
    using mark_processed_pending [OF assms(1)] by (simp add: loaded_events_def)
  have none: "pending_events organizationId db' = []"
    using events' by (rule pending_events_after_mark)
  obtain scores where scores: "scoresWithIds organizationId applyDecay True now db = Some scores"
    "\<forall>s\<in>set scores. eventBonus s
        = sum_list (map weightDelta
            (filter (\<lambda>e. subjectUserId e = sd_id s) (loaded_events organizationId True db)))"
    using scoresWithIds_total by blast
  obtain scores' where scores': "scoresWithIds organizationId applyDecay True later db' = Some scores'"
    "\<forall>s\<in>set scores'. eventBonus s
        = sum_list (map weightDelta
            (filter (\<lambda>e. subjectUserId e = sd_id s) (loaded_events organizationId True db')))"
    using scoresWithIds_total by blast
  have general: "\<exists>resp db'. POST organizationId applyDecay True now db = Some (resp, db')
      \<and> db_events db'
          = map (\<lambda>e. if event_organizationId e = organizationId \<and> processedAt e = None
                      then e\<lparr>processedAt := Some now\<rparr> else e) (db_events db)
      \<and> pending_events organizationId db' = []
      \<and> (\<exists>scores. scoresWithIds organizationId applyDecay True now db = Some scores
            \<and> (\<forall>s\<in>set scores. eventBonus s
                  = sum_list (map weightDelta
                      (filter (\<lambda>e. subjectUserId e = sd_id s)
                         (pending_events organizationId db)))))
      \<and> (\<exists>scores'. scoresWithIds organizationId applyDecay True later db' = Some scores'
            \<and> (\<forall>s\<in>set scores'. eventBonus s = 0))"
  proof (intro exI conjI)
    show "POST organizationId applyDecay True now db = Some (resp, db')"
      by (rule post)
    show "db_events db'
      = map (\<lambda>e. if event_organizationId e = organizationId \<and> processedAt e = None
                  then e\<lparr>processedAt := Some now\<rparr> else e) (db_events db)"
      by (rule events')
    show "pending_events organizationId db' = []"
      by (rule none)
    show "scoresWithIds organizationId applyDecay True now db = Some scores"
      by (rule scores(1))
    show "\<forall>s\<in>set scores. eventBonus s
        = sum_list (map weightDelta
            (filter (\<lambda>e. subjectUserId e = sd_id s) (pending_events organizationId db)))"
      using scores(2) by (simp add: loaded_events_def)
    show "scoresWithIds organizationId applyDecay True later db' = Some scores'"
      by (rule scores'(1))
    show "\<forall>s\<in>set scores'. eventBonus s = 0"
      using scores'(2) none by (simp add: loaded_events_def)
  qed
  have "map processedAt (db_events db1) = [Some 100]"
    by (simp add: db1_def event15_def)
  with general show ?thesis
    by (simp only: scenario_first_scores scenario_first_POST scenario_second_scores
          option.map list.map snd_conv simp_thms ScoreData.simps)
qed

theorem events_consumed_once_witness:
  "(\<exists>resp. POST ''org1'' True True 100 db0 = Some (resp, db1))
   \<and> pending_events ''org1'' db0 = [event15]
   \<and> pending_events ''org1'' db1 = []
   \<and> map_option (map eventBonus) (scoresWithIds ''org1'' True True 100 db0) = Some [15]
   \<and> map_option (map eventBonus) (scoresWithIds ''org1'' True True 101 db1) = Some [0]"
  using events_consumed_once [of db0 "''org1''" True 100 101]
  by (simp add: scenario_first_scores scenario_first_POST scenario_second_scores)
     (simp add: pending_events_def db0_def db1_def event15_def)

text \<open>
  The claim as the specification words it fails in its last part: the score of \<open>X\<close> does
  not stay at 15 in the second cycle.
\<close>

theorem rerun_keeps_score_counterexample:
  "map_option snd (POST ''org1'' True True 100 db0) = Some db1
   \<and> map_option (map newScore) (scoresWithIds ''org1'' True True 100 db0) = Some [15]
   \<and> map_option (map newScore) (scoresWithIds ''org1'' True True 101 db1) = Some [0]
   \<and> map_option (map newScore) (scoresWithIds ''org1'' True True 101 db1) \<noteq> Some [15]"
  by (simp add: scenario_first_scores scenario_first_POST scenario_second_scores)

end
